theory Spec2Isabelle
  imports Main "HOL-Library.Sublist"
begin

section \<open>Text and character classes\<close>

text \<open>
  A Python \<open>str\<close> is modelled as a \<^typ>\<open>string\<close>; a \<^typ>\<open>char\<close> is read as the
  code point of the same number, so the model covers texts whose code points are
  below 256.  The classes \<open>\s\<close>, \<open>\d\<close> and \<open>\w\<close> of \<open>re\<close> on a \<open>str\<close> pattern are the
  Unicode ones (\<open>str.isspace\<close>, decimal digits, \<open>str.isalnum\<close> or \<open>_\<close>), here
  restricted to that range.
\<close>

definition is_space :: "char \<Rightarrow> bool" where
  "is_space c =
     (let n = (of_char c :: nat)
      in (9 \<le> n \<and> n \<le> 13) \<or> (28 \<le> n \<and> n \<le> 32) \<or> n = 133 \<or> n = 160)"

definition is_digit :: "char \<Rightarrow> bool" where
  "is_digit c = (let n = (of_char c :: nat) in 48 \<le> n \<and> n \<le> 57)"

definition is_alnum :: "char \<Rightarrow> bool" where
  "is_alnum c =
     (let n = (of_char c :: nat)
      in (48 \<le> n \<and> n \<le> 57) \<or> (65 \<le> n \<and> n \<le> 90) \<or> (97 \<le> n \<and> n \<le> 122)
         \<or> n = 170 \<or> n = 178 \<or> n = 179 \<or> n = 181 \<or> n = 185 \<or> n = 186
         \<or> (188 \<le> n \<and> n \<le> 190) \<or> (192 \<le> n \<and> n \<le> 214)
         \<or> (216 \<le> n \<and> n \<le> 246) \<or> (248 \<le> n \<and> n \<le> 255))"

definition is_word :: "char \<Rightarrow> bool" where
  "is_word c = (is_alnum c \<or> c = CHR ''_'')"

section \<open>The fragment of \<open>re\<close> the module uses\<close>

text \<open>
  The seven patterns of the module are sequences of single-character items (a
  bracket class, a literal or \<open>.\<close>) under \<open>*\<close>, \<open>+\<close> or no quantifier, capture groups,
  and one optional group.  \<open>re\<close> is a backtracking matcher: quantifiers are greedy
  and alternatives are tried in a fixed order.  \<open>results r s\<close> lists every way \<open>r\<close>
  matches a prefix of \<open>s\<close>, in the order the matcher tries them, as the captured
  groups (in order of their opening parenthesis, \<open>None\<close> for a group that took no
  part) and the text left over; the match \<open>re\<close> reports is the head of that list.
\<close>

datatype atom = W | D | S | Ch char

datatype cset = Set "atom list" | Dot

fun in_atom :: "atom \<Rightarrow> char \<Rightarrow> bool" where
  "in_atom W c = is_word c"
| "in_atom D c = is_digit c"
| "in_atom S c = is_space c"
| "in_atom (Ch d) c = (c = d)"

fun in_cset :: "cset \<Rightarrow> char \<Rightarrow> bool" where
  "in_cset (Set as) c = list_ex (\<lambda>a. in_atom a c) as"
| "in_cset Dot c = (c \<noteq> CHR 0x0A)"

datatype rx = Eps | One cset | Star cset | Plus cset | Opt rx | Cat rx rx | Grp rx

fun ngroups :: "rx \<Rightarrow> nat" where
  "ngroups (Opt r) = ngroups r"
| "ngroups (Cat r1 r2) = ngroups r1 + ngroups r2"
| "ngroups (Grp r) = Suc (ngroups r)"
| "ngroups _ = 0"

text \<open>The texts left after a greedy run of characters of a class, longest run first.\<close>

fun greedy :: "(char \<Rightarrow> bool) \<Rightarrow> string \<Rightarrow> string list" where
  "greedy p [] = [[]]"
| "greedy p (x # xs) = (if p x then greedy p xs @ [x # xs] else [x # xs])"

type_synonym groups = "string option list"

fun results :: "rx \<Rightarrow> string \<Rightarrow> (groups \<times> string) list" where
  "results Eps s = [([], s)]"
| "results (One c) s =
     (case s of [] \<Rightarrow> [] | x # xs \<Rightarrow> if in_cset c x then [([], xs)] else [])"
| "results (Star c) s = map (Pair []) (greedy (in_cset c) s)"
| "results (Plus c) s =
     (case s of [] \<Rightarrow> []
      | x # xs \<Rightarrow> if in_cset c x then map (Pair []) (greedy (in_cset c) xs) else [])"
| "results (Opt r) s = results r s @ [(replicate (ngroups r) None, s)]"
| "results (Cat r1 r2) s =
     concat (map (\<lambda>(g1, s1). map (\<lambda>(g2, s2). (g1 @ g2, s2)) (results r2 s1))
                 (results r1 s))"
| "results (Grp r) s =
     map (\<lambda>(g, s'). (Some (take (length s - length s') s) # g, s')) (results r s)"

text \<open>
  \<open>Pattern.search\<close>: the first match at the leftmost position that has one, as the
  text before the match, the groups and the text after the match.
\<close>

fun search :: "rx \<Rightarrow> string \<Rightarrow> (string \<times> groups \<times> string) option" where
  "search r [] = (case results r [] of [] \<Rightarrow> None | (gs, rest) # _ \<Rightarrow> Some ([], gs, rest))"
| "search r (x # xs) =
     (case results r (x # xs) of
        (gs, rest) # _ \<Rightarrow> Some ([], gs, rest)
      | [] \<Rightarrow> map_option (\<lambda>(pre, gs, rest). (x # pre, gs, rest)) (search r xs))"

text \<open>
  \<open>Match.group(i)\<close> for \<open>i \<ge> 1\<close>.  Every group the module reads belongs to a pattern
  whose groups are all mandatory, so it always holds a text (\<open>search_mandatory\<close>
  and \<open>line_patterns_mandatory\<close> below); the default is never taken there.
\<close>

definition group_at :: "groups \<Rightarrow> nat \<Rightarrow> string" where
  "group_at gs i = (case drop (i - 1) gs of Some g # _ \<Rightarrow> g | _ \<Rightarrow> [])"

text \<open>
  \<open>Pattern.sub\<close> with a plain replacement text and \<open>Pattern.findall\<close> for a pattern
  with one group: both walk the non-overlapping matches from left to right, each
  search starting where the previous match ended.  The patterns they are used
  with cannot match the empty text (\<open>search_progress\<close> and
  \<open>walked_patterns_not_nullable\<close> below), so the rule of \<open>re\<close> for empty matches
  is not modelled: after a match that consumed nothing the model moves on by one
  character.
\<close>

function sub :: "rx \<Rightarrow> string \<Rightarrow> string \<Rightarrow> string" where
  "sub r repl s =
     (case search r s of
        None \<Rightarrow> s
      | Some (pre, gs, rest) \<Rightarrow>
          pre @ repl @
          (if length rest < length s then sub r repl rest
           else (case s of [] \<Rightarrow> [] | x # xs \<Rightarrow> x # sub r repl xs)))"
  by pat_completeness auto
termination
  by (relation "measure (\<lambda>(r, repl, s). length s)") auto

function findall :: "rx \<Rightarrow> string \<Rightarrow> string list" where
  "findall r s =
     (case search r s of
        None \<Rightarrow> []
      | Some (pre, gs, rest) \<Rightarrow>
          group_at gs 1 #
          (if length rest < length s then findall r rest
           else (case s of [] \<Rightarrow> [] | x # xs \<Rightarrow> findall r xs)))"
  by pat_completeness auto
termination
  by (relation "measure (\<lambda>(r, s). length s)") auto

text \<open>Both equations recur under no pattern, so they are unfolded only on request.\<close>

declare sub.simps [simp del] findall.simps [simp del]

definition lit :: "char \<Rightarrow> rx" where
  "lit c = One (Set [Ch c])"

fun str :: "string \<Rightarrow> rx" where
  "str [] = Eps"
| "str (c # cs) = Cat (lit c) (str cs)"

fun seq :: "rx list \<Rightarrow> rx" where
  "seq [] = Eps"
| "seq (r # rs) = Cat r (seq rs)"

section \<open>The patterns of the module\<close>

text \<open>\<^verbatim>\<open>_FILE_SUFFIX_REGEX = re.compile(r'\.c(pp)?')\<close>\<close>

definition FILE_SUFFIX_REGEX :: rx where
  "FILE_SUFFIX_REGEX = seq [lit CHR ''.'', lit CHR ''c'', Opt (Grp (str ''pp''))]"

text \<open>\<^verbatim>\<open>_FUNCTION_REGEX = re.compile(r'([\w\d]+) ([\w_]+)(\([\w\d*\s\[\]]+\))')\<close>\<close>

definition FUNCTION_REGEX :: rx where
  "FUNCTION_REGEX =
     seq [Grp (Plus (Set [W, D])), lit CHR '' '', Grp (Plus (Set [W, Ch CHR ''_''])),
          Grp (seq [lit CHR ''('',
                    Plus (Set [W, D, Ch CHR ''*'', S, Ch CHR ''['', Ch CHR '']'']),
                    lit CHR '')''])]"

text \<open>\<^verbatim>\<open>_POINTER_OR_ADDRESS = re.compile('[*&]')\<close>\<close>

definition POINTER_OR_ADDRESS :: rx where
  "POINTER_OR_ADDRESS = One (Set [Ch CHR ''*'', Ch CHR ''&''])"

text \<open>\<^verbatim>\<open>_GET_CLASSES_REGEX = re.compile(r'class[\s\n\t]*([\w\d_]+)[\s\n\t]*\{[.\n]*')\<close>\<close>

definition GET_CLASSES_REGEX :: rx where
  "GET_CLASSES_REGEX =
     seq [str ''class'', Star (Set [S, Ch CHR 0x0A, Ch CHR 0x09]),
          Grp (Plus (Set [W, D, Ch CHR ''_''])),
          Star (Set [S, Ch CHR 0x0A, Ch CHR 0x09]), lit CHR ''{'',
          Star (Set [Ch CHR ''.'', Ch CHR 0x0A])]"

text \<open>\<^verbatim>\<open>_CLASS_REGEX = re.compile(r'class[\s\n\t]*([\w\d_]+)')\<close>\<close>

definition CLASS_REGEX :: rx where
  "CLASS_REGEX =
     seq [str ''class'', Star (Set [S, Ch CHR 0x0A, Ch CHR 0x09]),
          Grp (Plus (Set [W, D, Ch CHR ''_'']))]"

text \<open>\<^verbatim>\<open>_VAR_REGEX = re.compile(r'([\w\d_]+)\s+[*&]*([\w\d_]+);')\<close>\<close>

definition VAR_REGEX :: rx where
  "VAR_REGEX =
     seq [Grp (Plus (Set [W, D, Ch CHR ''_''])), Plus (Set [S]),
          Star (Set [Ch CHR ''*'', Ch CHR ''&'']),
          Grp (Plus (Set [W, D, Ch CHR ''_''])), lit CHR '';'']"

text \<open>
  \<^verbatim>\<open>_ARRAY_REGEX = re.compile(r'([\w\d_]+)\s+[*&]*([\w\d_]+)[\s\t\n]*\[[\s\t]*.*[\s\t]*]')\<close>
\<close>

definition ARRAY_REGEX :: rx where
  "ARRAY_REGEX =
     seq [Grp (Plus (Set [W, D, Ch CHR ''_''])), Plus (Set [S]),
          Star (Set [Ch CHR ''*'', Ch CHR ''&'']),
          Grp (Plus (Set [W, D, Ch CHR ''_''])),
          Star (Set [S, Ch CHR 0x09, Ch CHR 0x0A]), lit CHR ''['',
          Star (Set [S, Ch CHR 0x09]), Star Dot, Star (Set [S, Ch CHR 0x09]),
          lit CHR '']'']"

section \<open>The methods of \<open>str\<close> the module uses\<close>

text \<open>\<open>s.split(c)\<close> for a separator of one character: one more piece than separators.\<close>

fun split :: "char \<Rightarrow> string \<Rightarrow> string list" where
  "split c [] = [[]]"
| "split c (x # xs) =
     (if x = c then [] # split c xs
      else (case split c xs of [] \<Rightarrow> [[x]] | y # ys \<Rightarrow> (x # y) # ys))"

text \<open>\<open>s.replace(old, new)\<close> for a non-empty \<open>old\<close>: every occurrence, left to right.\<close>

function replace :: "string \<Rightarrow> string \<Rightarrow> string \<Rightarrow> string" where
  "replace old new [] = []"
| "replace old new (x # xs) =
     (if old \<noteq> [] \<and> prefix old (x # xs)
      then new @ replace old new (drop (length old) (x # xs))
      else x # replace old new xs)"
  by pat_completeness auto
termination
  by (relation "measure (\<lambda>(old, new, s). length s)") (auto simp: neq_Nil_conv)

text \<open>\<open>s.strip()\<close> removes white space at both ends; \<open>s.lstrip(chars)\<close> removes, at the
  left end, every character that occurs in \<open>chars\<close>.\<close>

definition strip :: "string \<Rightarrow> string" where
  "strip s = rev (dropWhile is_space (rev (dropWhile is_space s)))"

definition lstrip :: "string \<Rightarrow> string \<Rightarrow> string" where
  "lstrip chars s = dropWhile (\<lambda>c. c \<in> set chars) s"

text \<open>\<open>' ' * n\<close>: empty for a negative \<open>n\<close>.\<close>

definition spaces :: "int \<Rightarrow> string" where
  "spaces n = replicate (nat n) CHR '' ''"

section \<open>The type resolver\<close>

datatype error = ValueError | OSError

text \<open>The built-in types that occur as values of the conversion table, and their
  \<open>__name__\<close>.\<close>

datatype pytype = PyBool | PyStr | PyInt | PyFloat

fun type_name :: "pytype \<Rightarrow> string" where
  "type_name PyBool = ''bool''"
| "type_name PyStr = ''str''"
| "type_name PyInt = ''int''"
| "type_name PyFloat = ''float''"

text \<open>\<open>_CTYPES_CONVERSIONS: Dict[str, Optional[type]]\<close>; the inner \<open>None\<close> is the value
  stored for \<open>void\<close>, the outer one a missing key.\<close>

definition CTYPES_CONVERSIONS :: "string \<rightharpoonup> pytype option" where
  "CTYPES_CONVERSIONS = map_of
     [(''void'', None),
      (''bool'', Some PyBool),
      (''char'', Some PyStr),
      (''wchar_t'', Some PyStr),
      (''short'', Some PyInt),
      (''int'', Some PyInt),
      (''long'', Some PyInt),
      (''__int64'', Some PyInt),
      (''size_t'', Some PyInt),
      (''ssize_t'', Some PyInt),
      (''float'', Some PyFloat),
      (''double'', Some PyFloat)]"

text \<open>The values the local \<open>type_\<close> (here \<open>ty\<close>) of \<open>_get_name\<close> holds: \<open>None\<close>, a type or a text.\<close>

datatype pyvalue = NoneV | TypeV pytype | StrV string

fun py_str :: "pyvalue \<Rightarrow> string" where
  "py_str NoneV = ''None''"
| "py_str (StrV s) = s"
| "py_str (TypeV t) = ''<class '' @ [CHR 0x27] @ type_name t @ [CHR 0x27] @ ''>''"

definition get_name :: "string \<Rightarrow> string list \<Rightarrow> string" where
  "get_name string classes =
     (let ty = (case CTYPES_CONVERSIONS string of
                     None \<Rightarrow> if string \<in> set classes then StrV string else StrV ''typing.Any''
                   | Some None \<Rightarrow> NoneV
                   | Some (Some t) \<Rightarrow> TypeV t);
          ty' = (case ty of TypeV t \<Rightarrow> StrV (type_name t) | v \<Rightarrow> v)
      in py_str ty')"

section \<open>The stub emitter\<close>

abbreviation NL :: string where
  "NL \<equiv> [CHR 0x0A]"

definition BASE_STRING :: string where
  "BASE_STRING =
     ''import typing'' @ NL @
     NL @
     ''T = typing.TypeVar('' @ [CHR 0x27] @ ''T'' @ [CHR 0x27] @ '')'' @ NL @
     NL @
     NL @
     ''class _MutableCollection(typing.Collection[T]):  # this is made to type arrays'' @ NL @
     ''    def __getitem__(self, name: str) -> T: ...'' @ NL @
     ''    def __setitem__(self, index: int, value: T) -> None: ...'' @ NL @
     ''    def __delitem__(self, index: int) -> None: ...'' @ NL @
     ''    '' @ NL @
     ''# typing for C++ below'' @ NL @
     NL"

text \<open>
  The body of the parameter loop of \<open>_get_function_annotations\<close>.  The unpacking
  \<open>parameter_type_string, parameter_name = parameter.split(' ')\<close> raises \<open>ValueError\<close>
  unless the split has exactly two pieces.
\<close>

definition split_parameter :: "string \<Rightarrow> error + (string \<times> string)" where
  "split_parameter parameter =
     (case split CHR '' '' (replace ''  '' '' '' (strip parameter)) of
        [parameter_type_string, parameter_name] \<Rightarrow> Inr (parameter_type_string, parameter_name)
      | _ \<Rightarrow> Inl ValueError)"

definition annotate_parameter :: "string list \<Rightarrow> string \<Rightarrow> error + string" where
  "annotate_parameter classes parameter =
     (case split_parameter parameter of
        Inl e \<Rightarrow> Inl e
      | Inr (parameter_type_string, parameter_name) \<Rightarrow>
          (let parameter_type_string' = sub POINTER_OR_ADDRESS [] parameter_type_string;
               parameter_type = get_name parameter_type_string' classes;
               parameter_name' = sub POINTER_OR_ADDRESS [] parameter_name
           in Inr (parameter_name' @ '': '' @ parameter_type)))"

fun parameter_loop :: "string list \<Rightarrow> string list \<Rightarrow> string \<Rightarrow> error + string" where
  "parameter_loop [] classes signature = Inr signature"
| "parameter_loop (parameter # parameters) classes signature =
     (case annotate_parameter classes parameter of
        Inl e \<Rightarrow> Inl e
      | Inr fragment \<Rightarrow> parameter_loop parameters classes (signature @ fragment))"

text \<open>\<open>_get_function_annotations\<close>, on the groups of the match it is given.\<close>

definition parameters_of :: "groups \<Rightarrow> string list" where
  "parameters_of function_match =
     split CHR '','' (replace '')'' [] (replace ''('' [] (group_at function_match 3)))"

definition get_function_annotations :: "groups \<Rightarrow> string list \<Rightarrow> int \<Rightarrow> error + string" where
  "get_function_annotations function_match classes current_level =
     (let name = group_at function_match 2;
          signature = spaces current_level @ ''def '' @ name @ ''('';
          parameters = parameters_of function_match
      in case parameter_loop parameters classes signature of
           Inl e \<Rightarrow> Inl e
         | Inr signature' \<Rightarrow>
             (let return_type_string =
                    lstrip ''long '' (lstrip ''unsigned '' (lstrip ''*'' (group_at function_match 1)));
                  return_type = get_name return_type_string classes
              in Inr (signature' @ '') -> '' @ return_type @ '': ...'' @ NL @ NL)))"

text \<open>The texts the loop of \<open>generate_stubs\<close> appends for a class, a variable and an
  array match.\<close>

definition class_stub :: "groups \<Rightarrow> int \<Rightarrow> string" where
  "class_stub class_match current_level =
     spaces current_level @ ''class '' @ group_at class_match 1 @ '':'' @ NL
     @ spaces (current_level + 4) @ ''...'' @ NL"

definition var_stub :: "groups \<Rightarrow> string list \<Rightarrow> int \<Rightarrow> string" where
  "var_stub var_match classes current_level =
     (let var_type = get_name (group_at var_match 1) classes
      in spaces current_level @ group_at var_match 2 @ '': '' @ var_type @ NL)"

definition array_stub :: "groups \<Rightarrow> string list \<Rightarrow> int \<Rightarrow> string" where
  "array_stub array_match classes current_level =
     (let array_type = get_name (group_at array_match 1) classes;
          array_name = group_at array_match 2
      in spaces current_level @ array_name @ '': _MutableCollection['' @ array_type @ '']'' @ NL)"

text \<open>
  One turn of the loop over the lines: the state is \<open>(stubs_string, current_level)\<close>.
\<close>

definition process_line ::
  "string list \<Rightarrow> string \<Rightarrow> string \<times> int \<Rightarrow> error + (string \<times> int)" where
  "process_line classes line st =
     (case st of (stubs_string, current_level) \<Rightarrow>
      let function_match = search FUNCTION_REGEX line;
          class_match = search CLASS_REGEX line;
          var_match = search VAR_REGEX line;
          array_match = search ARRAY_REGEX line;
          s1 = (case class_match of
                  Some (_, m, _) \<Rightarrow> stubs_string @ class_stub m current_level
                | None \<Rightarrow> stubs_string)
      in case (case function_match of
                 Some (_, m, _) \<Rightarrow>
                   (case get_function_annotations m classes current_level of
                      Inl e \<Rightarrow> Inl e
                    | Inr signature \<Rightarrow> Inr (s1 @ signature))
               | None \<Rightarrow> Inr s1) of
           Inl e \<Rightarrow> Inl e
         | Inr s2 \<Rightarrow>
            (let s3 = (case var_match of
                         Some (_, m, _) \<Rightarrow> s2 @ var_stub m classes current_level
                       | None \<Rightarrow> s2);
                 s4 = (case array_match of
                         Some (_, m, _) \<Rightarrow> s3 @ array_stub m classes current_level
                       | None \<Rightarrow> s3);
                 l1 = (if CHR ''{'' \<in> set line \<and> function_match = None
                       then current_level + 4 else current_level);
                 l2 = (if CHR ''}'' \<in> set line \<and> 4 \<le> l1 \<and> function_match = None
                       then l1 - 4 else l1)
             in Inr (s4, l2)))"

fun walk :: "string list \<Rightarrow> string list \<Rightarrow> string \<times> int \<Rightarrow> error + (string \<times> int)" where
  "walk classes [] st = Inr st"
| "walk classes (line # lines) st =
     (case process_line classes line st of
        Inl e \<Rightarrow> Inl e
      | Inr st' \<Rightarrow> walk classes lines st')"

text \<open>The part of \<open>generate_stubs\<close> between reading the source and writing the stubs:
  the text to be written, or the error raised on the way.\<close>

definition stubs_text :: "string \<Rightarrow> error + string" where
  "stubs_text code =
     (let classes = findall GET_CLASSES_REGEX code
      in case walk classes (split CHR 0x0A code) (BASE_STRING, 0) of
           Inl e \<Rightarrow> Inl e
         | Inr (stubs_string, current_level) \<Rightarrow> Inr stubs_string)"

text \<open>
  \<open>generate_stubs\<close> on a file system, a map from paths to the text that reading
  the file there gives.  Opening a path that has no file raises \<open>OSError\<close>; the
  write at the end is taken to succeed.  The result is the file system afterwards
  and how the call ended.
\<close>

type_synonym fs = "string \<rightharpoonup> string"

definition stubs_path :: "string \<Rightarrow> string" where
  "stubs_path path = sub FILE_SUFFIX_REGEX ''.pyi'' path"

definition generate_stubs :: "fs \<Rightarrow> string \<Rightarrow> fs \<times> (error + unit)" where
  "generate_stubs files path =
     (case files path of
        None \<Rightarrow> (files, Inl OSError)
      | Some code \<Rightarrow>
          (case stubs_text code of
             Inl e \<Rightarrow> (files, Inl e)
           | Inr stubs_string \<Rightarrow> (files(stubs_path path \<mapsto> stubs_string), Inr ())))"

section \<open>Notions used to state and prove the properties\<close>

text \<open>The characters a match of a pattern can contain, and the bodies of its groups
  in the order of their opening parentheses.\<close>

fun alphabet :: "rx \<Rightarrow> char \<Rightarrow> bool" where
  "alphabet Eps x = False"
| "alphabet (One c) x = in_cset c x"
| "alphabet (Star c) x = in_cset c x"
| "alphabet (Plus c) x = in_cset c x"
| "alphabet (Opt r) x = alphabet r x"
| "alphabet (Cat r1 r2) x = (alphabet r1 x \<or> alphabet r2 x)"
| "alphabet (Grp r) x = alphabet r x"

fun group_bodies :: "rx \<Rightarrow> rx list" where
  "group_bodies (Opt r) = group_bodies r"
| "group_bodies (Cat r1 r2) = group_bodies r1 @ group_bodies r2"
| "group_bodies (Grp r) = r # group_bodies r"
| "group_bodies _ = []"

definition group_in :: "string option \<Rightarrow> rx \<Rightarrow> bool" where
  "group_in g body = (case g of None \<Rightarrow> True | Some m \<Rightarrow> list_all (alphabet body) m)"

text \<open>A pattern whose groups all take part in every match, and a pattern that can
  match the empty text.\<close>

fun mandatory :: "rx \<Rightarrow> bool" where
  "mandatory (Opt r) = False"
| "mandatory (Cat r1 r2) = (mandatory r1 \<and> mandatory r2)"
| "mandatory (Grp r) = mandatory r"
| "mandatory _ = True"

fun nullable :: "rx \<Rightarrow> bool" where
  "nullable Eps = True"
| "nullable (One c) = False"
| "nullable (Star c) = True"
| "nullable (Plus c) = False"
| "nullable (Opt r) = True"
| "nullable (Cat r1 r2) = (nullable r1 \<and> nullable r2)"
| "nullable (Grp r) = nullable r"


text \<open>The indentation level one turn of the loop leaves, as a function of the line.\<close>

definition level_after :: "string \<Rightarrow> int \<Rightarrow> int" where
  "level_after line lvl =
     (if search FUNCTION_REGEX line \<noteq> None then lvl
      else (let l1 = (if CHR ''{'' \<in> set line then lvl + 4 else lvl)
            in if CHR ''}'' \<in> set line \<and> 4 \<le> l1 then l1 - 4 else l1))"

text \<open>
  Two readings of the destination path, written from the words of the
  specification rather than from the code: every occurrence of \<open>.cpp\<close> or \<open>.c\<close>,
  from left to right, becomes \<open>.pyi\<close>; or only a trailing \<open>.cpp\<close> or \<open>.c\<close> does.
\<close>

function dot_c_replaced :: "string \<Rightarrow> string" where
  "dot_c_replaced [] = []"
| "dot_c_replaced (x # xs) =
     (if prefix ''.cpp'' (x # xs) then ''.pyi'' @ dot_c_replaced (drop 4 (x # xs))
      else if prefix ''.c'' (x # xs) then ''.pyi'' @ dot_c_replaced (drop 2 (x # xs))
      else x # dot_c_replaced xs)"
  by pat_completeness auto
termination
  by (relation "measure length") auto

declare dot_c_replaced.simps [simp del]

definition replace_trailing_suffix :: "string \<Rightarrow> string" where
  "replace_trailing_suffix path =
     (if suffix ''.cpp'' path then take (length path - 4) path @ ''.pyi''
      else if suffix ''.c'' path then take (length path - 2) path @ ''.pyi''
      else path)"

section \<open>Properties of the matcher\<close>

lemma greedy_decomp:
  "rest \<in> set (greedy p s) \<Longrightarrow> \<exists>m. s = m @ rest \<and> (\<forall>c\<in>set m. p c)"
proof (induction s)
  case Nil
  then show ?case by simp
next
  case (Cons x xs)
  show ?case
  proof (cases "rest = x # xs")
    case True
    then show ?thesis by simp
  next
    case False
    with Cons.prems have px: "p x" and "rest \<in> set (greedy p xs)"
      by (auto split: if_splits)
    then obtain m where "xs = m @ rest" "\<forall>c\<in>set m. p c"
      using Cons.IH by blast
    with px have "x # xs = (x # m) @ rest \<and> (\<forall>c\<in>set (x # m). p c)" by simp
    then show ?thesis by blast
  qed
qed

lemma in_results_One:
  "(gs, rest) \<in> set (results (One c) s) \<Longrightarrow> \<exists>x. gs = [] \<and> s = x # rest \<and> in_cset c x"
  by (auto split: list.splits if_splits)

lemma in_results_Star:
  "(gs, rest) \<in> set (results (Star c) s) \<Longrightarrow>
     \<exists>m. gs = [] \<and> s = m @ rest \<and> (\<forall>x\<in>set m. in_cset c x)"
  using greedy_decomp by auto

lemma in_results_Plus:
  "(gs, rest) \<in> set (results (Plus c) s) \<Longrightarrow>
     \<exists>m. gs = [] \<and> m \<noteq> [] \<and> s = m @ rest \<and> (\<forall>x\<in>set m. in_cset c x)"
proof -
  assume a: "(gs, rest) \<in> set (results (Plus c) s)"
  then obtain x xs where s: "s = x # xs" and x: "in_cset c x"
    and r: "rest \<in> set (greedy (in_cset c) xs)" and g: "gs = []"
    by (auto split: list.splits if_splits)
  from greedy_decomp [OF r] obtain m where "xs = m @ rest" "\<forall>c'\<in>set m. in_cset c c'"
    by blast
  with s x g have "gs = [] \<and> x # m \<noteq> [] \<and> s = (x # m) @ rest \<and> (\<forall>y\<in>set (x # m). in_cset c y)"
    by simp
  then show ?thesis by blast
qed

lemma in_results_Cat:
  "(gs, rest) \<in> set (results (Cat r1 r2) s) \<Longrightarrow>
     \<exists>g1 s1 g2. (g1, s1) \<in> set (results r1 s) \<and> (g2, rest) \<in> set (results r2 s1)
        \<and> gs = g1 @ g2"
  by auto

lemma in_results_Grp:
  "(gs, rest) \<in> set (results (Grp r) s) \<Longrightarrow>
     \<exists>g. (g, rest) \<in> set (results r s) \<and> gs = Some (take (length s - length rest) s) # g"
  by auto

lemma results_suffix: "(gs, rest) \<in> set (results r s) \<Longrightarrow> suffix rest s"
proof (induction r arbitrary: gs rest s)
  case Eps then show ?case by simp
next
  case (One c) then show ?case using in_results_One[OF One.prems] by (auto simp: suffix_def)
next
  case (Star c) then show ?case using in_results_Star[OF Star.prems] by (auto simp: suffix_def)
next
  case (Plus c) then show ?case using in_results_Plus[OF Plus.prems] by (auto simp: suffix_def)
next
  case (Opt r) then show ?case by auto
next
  case (Cat r1 r2)
  from in_results_Cat[OF Cat.prems] obtain g1 s1 g2 where
    "(g1, s1) \<in> set (results r1 s)" "(g2, rest) \<in> set (results r2 s1)" by blast
  then show ?case using Cat.IH suffix_order.trans by blast
next
  case (Grp r) then show ?case using in_results_Grp[OF Grp.prems] by blast
qed

lemma search_Some:
  "search r s = Some (pre, gs, rest) \<Longrightarrow>
     \<exists>t. s = pre @ t \<and> results r t \<noteq> [] \<and> hd (results r t) = (gs, rest)"
proof (induction s arbitrary: pre)
  case Nil
  then show ?case by (auto split: list.splits)
next
  case (Cons x xs)
  show ?case
  proof (cases "results r (x # xs)")
    case Nil
    with Cons.prems obtain pre' where "search r xs = Some (pre', gs, rest)" "pre = x # pre'"
      by auto
    with Cons.IH show ?thesis by fastforce
  next
    case nonempty: (Cons a as)
    with Cons.prems show ?thesis by (auto split: prod.splits)
  qed
qed

lemma search_in_results:
  "search r s = Some (pre, gs, rest) \<Longrightarrow> \<exists>t. s = pre @ t \<and> (gs, rest) \<in> set (results r t)"
  using search_Some [of r s pre gs rest] by (metis hd_in_set)

lemma length_group_bodies: "length (group_bodies r) = ngroups r"
  by (induction r) auto

lemma results_alphabet:
  "(gs, rest) \<in> set (results r s) \<Longrightarrow> \<exists>m. s = m @ rest \<and> (\<forall>x\<in>set m. alphabet r x)"
proof (induction r arbitrary: gs rest s)
  case Eps
  then show ?case by simp
next
  case (One c)
  from in_results_One [OF One.prems] show ?case by auto
next
  case (Star c)
  from in_results_Star [OF Star.prems] show ?case by auto
next
  case (Plus c)
  from in_results_Plus [OF Plus.prems] show ?case by auto
next
  case (Opt r)
  from Opt.prems have "(gs, rest) \<in> set (results r s) \<or> rest = s" by auto
  then show ?case
  proof
    assume "(gs, rest) \<in> set (results r s)"
    from Opt.IH [OF this] show ?thesis by simp
  next
    assume "rest = s"
    then have "s = [] @ rest \<and> (\<forall>x\<in>set []. alphabet (Opt r) x)" by simp
    then show ?thesis by blast
  qed
next
  case (Cat r1 r2)
  from in_results_Cat [OF Cat.prems] obtain g1 s1 g2 where
    a: "(g1, s1) \<in> set (results r1 s)" and b: "(g2, rest) \<in> set (results r2 s1)" by blast
  from Cat.IH(1) [OF a] obtain m1 where m1: "s = m1 @ s1" "\<forall>x\<in>set m1. alphabet r1 x" by blast
  from Cat.IH(2) [OF b] obtain m2 where m2: "s1 = m2 @ rest" "\<forall>x\<in>set m2. alphabet r2 x" by blast
  from m1 m2 have "s = (m1 @ m2) @ rest \<and> (\<forall>x\<in>set (m1 @ m2). alphabet (Cat r1 r2) x)"
    by auto
  then show ?case by blast
next
  case (Grp r)
  from in_results_Grp [OF Grp.prems] have "(tl gs, rest) \<in> set (results r s)" by auto
  from Grp.IH [OF this] show ?case by simp
qed

lemma results_groups:
  "(gs, rest) \<in> set (results r s) \<Longrightarrow> list_all2 group_in gs (group_bodies r)"
proof (induction r arbitrary: gs rest s)
  case Eps
  then show ?case by simp
next
  case (One c)
  from in_results_One [OF One.prems] show ?case by auto
next
  case (Star c)
  from in_results_Star [OF Star.prems] show ?case by auto
next
  case (Plus c)
  from in_results_Plus [OF Plus.prems] show ?case by auto
next
  case (Opt r)
  from Opt.prems have "(gs, rest) \<in> set (results r s) \<or> gs = replicate (ngroups r) None"
    by auto
  then show ?case
  proof
    assume "(gs, rest) \<in> set (results r s)"
    from Opt.IH [OF this] show ?thesis by simp
  next
    assume "gs = replicate (ngroups r) None"
    then show ?thesis
      by (simp add: list_all2_conv_all_nth length_group_bodies group_in_def)
  qed
next
  case (Cat r1 r2)
  from in_results_Cat [OF Cat.prems] obtain g1 s1 g2 where
    a: "(g1, s1) \<in> set (results r1 s)" and b: "(g2, rest) \<in> set (results r2 s1)"
    and gs: "gs = g1 @ g2" by blast
  from Cat.IH(1) [OF a] Cat.IH(2) [OF b] gs show ?case
    by (simp add: list_all2_appendI)
next
  case (Grp r)
  from in_results_Grp [OF Grp.prems] obtain g where
    g: "(g, rest) \<in> set (results r s)" and gs: "gs = Some (take (length s - length rest) s) # g"
    by blast
  from results_alphabet [OF g] obtain m where m: "s = m @ rest" "\<forall>x\<in>set m. alphabet r x"
    by blast
  then have "take (length s - length rest) s = m" by simp
  with m(2) have "group_in (Some (take (length s - length rest) s)) r"
    by (simp add: group_in_def list_all_iff)
  with Grp.IH [OF g] gs show ?case by simp
qed

lemma search_groups:
  "search r s = Some (pre, gs, rest) \<Longrightarrow> list_all2 group_in gs (group_bodies r)"
  using search_in_results results_groups by blast

lemma group_in_set:
  assumes "list_all2 group_in gs bodies" and "0 < i" and "i \<le> length bodies"
  shows "\<forall>x\<in>set (group_at gs i). alphabet (bodies ! (i - 1)) x"
proof -
  from assms have len: "length gs = length bodies" and i: "i - 1 < length gs"
    by (auto dest: list_all2_lengthD)
  from assms(1) i have gi: "group_in (gs ! (i - 1)) (bodies ! (i - 1))"
    by (simp add: list_all2_conv_all_nth)
  from i have "drop (i - 1) gs = gs ! (i - 1) # drop (Suc (i - 1)) gs"
    by (simp add: Cons_nth_drop_Suc)
  then have "group_at gs i = (case gs ! (i - 1) of Some g \<Rightarrow> g | None \<Rightarrow> [])"
    by (simp add: group_at_def split: option.splits)
  with gi show ?thesis
    by (auto simp: group_in_def list_all_iff split: option.splits)
qed



lemma function_parameters_no_comma:
  assumes "search FUNCTION_REGEX line = Some (pre, m, rest)"
  shows "CHR '','' \<notin> set (group_at m 3)"
proof -
  let ?b3 = "seq [lit CHR ''('',
                    Plus (Set [W, D, Ch CHR ''*'', S, Ch CHR ''['', Ch CHR '']'']),
                    lit CHR '')'']"
  have b: "group_bodies FUNCTION_REGEX =
      [Plus (Set [W, D]), Plus (Set [W, Ch CHR ''_'']), ?b3]"
    by (simp add: FUNCTION_REGEX_def lit_def)
  from search_groups [OF assms] b
  have "\<forall>x\<in>set (group_at m 3). alphabet ([Plus (Set [W, D]), Plus (Set [W, Ch CHR ''_'']), ?b3] ! (3 - 1)) x"
    using group_in_set [of m "group_bodies FUNCTION_REGEX" 3] by simp
  then have "\<forall>x\<in>set (group_at m 3). alphabet ?b3 x" by simp
  moreover have "\<not> alphabet ?b3 CHR '',''"
    by (simp add: lit_def is_word_def is_alnum_def is_digit_def is_space_def)
  ultimately show ?thesis by blast
qed

text \<open>
  Every group of the patterns matched against lines and of the class pre-scan
  holds a text, and the patterns given to \<open>sub\<close> and \<open>findall\<close> consume at least one
  character with every match.
\<close>

lemma results_mandatory:
  "mandatory r \<Longrightarrow> (gs, rest) \<in> set (results r s) \<Longrightarrow>
     length gs = ngroups r \<and> None \<notin> set gs"
proof (induction r arbitrary: gs rest s)
  case Eps
  then show ?case by simp
next
  case (One c)
  from in_results_One [OF One.prems(2)] show ?case by auto
next
  case (Star c)
  from in_results_Star [OF Star.prems(2)] show ?case by auto
next
  case (Plus c)
  from in_results_Plus [OF Plus.prems(2)] show ?case by auto
next
  case (Opt r)
  then show ?case by simp
next
  case (Cat r1 r2)
  from in_results_Cat [OF Cat.prems(2)] obtain g1 s1 g2 where
    a: "(g1, s1) \<in> set (results r1 s)" and b: "(g2, rest) \<in> set (results r2 s1)"
    and gs: "gs = g1 @ g2" by blast
  from Cat.prems(1) have "mandatory r1" "mandatory r2" by simp_all
  with Cat.IH(1) [OF _ a] Cat.IH(2) [OF _ b] gs show ?case by simp
next
  case (Grp r)
  from in_results_Grp [OF Grp.prems(2)] obtain g where
    g: "(g, rest) \<in> set (results r s)" and gs: "gs = Some (take (length s - length rest) s) # g"
    by blast
  from Grp.prems(1) have "mandatory r" by simp
  with Grp.IH [OF _ g] gs show ?case by simp
qed

lemma line_patterns_mandatory:
  "mandatory FUNCTION_REGEX" "mandatory CLASS_REGEX" "mandatory VAR_REGEX"
  "mandatory ARRAY_REGEX" "mandatory GET_CLASSES_REGEX"
  by (simp_all add: FUNCTION_REGEX_def CLASS_REGEX_def VAR_REGEX_def ARRAY_REGEX_def
      GET_CLASSES_REGEX_def lit_def)

lemma search_mandatory:
  "mandatory r \<Longrightarrow> search r s = Some (pre, gs, rest) \<Longrightarrow>
     length gs = ngroups r \<and> None \<notin> set gs"
  using search_in_results results_mandatory by blast

lemma results_progress:
  "\<not> nullable r \<Longrightarrow> (gs, rest) \<in> set (results r s) \<Longrightarrow> length rest < length s"
proof (induction r arbitrary: gs rest s)
  case Eps
  then show ?case by simp
next
  case (One c)
  from in_results_One [OF One.prems(2)] show ?case by auto
next
  case (Star c)
  then show ?case by simp
next
  case (Plus c)
  from in_results_Plus [OF Plus.prems(2)] show ?case by auto
next
  case (Opt r)
  then show ?case by simp
next
  case (Cat r1 r2)
  from in_results_Cat [OF Cat.prems(2)] obtain g1 s1 g2 where
    a: "(g1, s1) \<in> set (results r1 s)" and b: "(g2, rest) \<in> set (results r2 s1)" by blast
  from results_suffix [OF a] results_suffix [OF b]
  have le: "length s1 \<le> length s" "length rest \<le> length s1"
    by (auto simp: suffix_def)
  from Cat.prems(1) have "\<not> nullable r1 \<or> \<not> nullable r2" by simp
  then show ?case
  proof
    assume "\<not> nullable r1"
    from Cat.IH(1) [OF this a] le show ?thesis by simp
  next
    assume "\<not> nullable r2"
    from Cat.IH(2) [OF this b] le show ?thesis by simp
  qed
next
  case (Grp r)
  from in_results_Grp [OF Grp.prems(2)] obtain g where
    g: "(g, rest) \<in> set (results r s)" by blast
  from Grp.prems(1) have "\<not> nullable r" by simp
  from Grp.IH [OF this g] show ?case .
qed

lemma search_progress:
  assumes "\<not> nullable r" and "search r s = Some (pre, gs, rest)"
  shows "length rest < length s"
proof -
  from search_in_results [OF assms(2)] obtain t where
    t: "s = pre @ t" "(gs, rest) \<in> set (results r t)" by blast
  from results_progress [OF assms(1) t(2)] t(1) show ?thesis by simp
qed

lemma walked_patterns_not_nullable:
  "\<not> nullable FILE_SUFFIX_REGEX" "\<not> nullable POINTER_OR_ADDRESS"
  "\<not> nullable GET_CLASSES_REGEX"
  by (simp_all add: FILE_SUFFIX_REGEX_def POINTER_OR_ADDRESS_def GET_CLASSES_REGEX_def lit_def)

section \<open>Properties of the emitted texts\<close>









section \<open>Properties of the loop over the lines\<close>

lemma process_line_level:
  "process_line classes line (out, lvl) = Inr (out', lvl') \<Longrightarrow> lvl' = level_after line lvl"
  by (auto simp: process_line_def level_after_def Let_def split: option.splits sum.splits)

lemma level_after_nonneg: "0 \<le> lvl \<Longrightarrow> 0 \<le> level_after line lvl"
  by (simp add: level_after_def Let_def)

lemma walk_level_nonneg:
  "walk classes lines (out, lvl) = Inr (out', lvl') \<Longrightarrow> 0 \<le> lvl \<Longrightarrow> 0 \<le> lvl'"
proof (induction lines arbitrary: out lvl)
  case Nil
  then show ?case by simp
next
  case (Cons line lines)
  from Cons.prems(1) obtain out1 lvl1 where
    p: "process_line classes line (out, lvl) = Inr (out1, lvl1)"
    and w: "walk classes lines (out1, lvl1) = Inr (out', lvl')"
    by (auto split: sum.splits)
  from process_line_level [OF p] Cons.prems(2) have "0 \<le> lvl1"
    by (simp add: level_after_nonneg)
  with Cons.IH [OF w] show ?case .
qed

lemma walk_append:
  "walk classes (xs @ ys) st =
     (case walk classes xs st of Inl e \<Rightarrow> Inl e | Inr st' \<Rightarrow> walk classes ys st')"
  by (induction xs arbitrary: st) (auto split: sum.splits)









lemma split_parameter_Inl:
  "split_parameter p = Inl e \<longleftrightarrow>
     e = ValueError \<and> length (split CHR '' '' (replace ''  '' '' '' (strip p))) \<noteq> 2"
  by (auto simp: split_parameter_def split: list.splits)

lemma annotate_parameter_Inl:
  "annotate_parameter classes p = Inl e \<longleftrightarrow> split_parameter p = Inl e"
  by (auto simp: annotate_parameter_def Let_def split: sum.splits)

lemma parameter_loop_error:
  "parameter_loop ps classes sig = Inl e \<Longrightarrow> e = ValueError"
proof (induction ps arbitrary: sig)
  case Nil
  then show ?case by simp
next
  case (Cons p ps)
  then show ?case
    by (auto simp: annotate_parameter_Inl split_parameter_Inl split: sum.splits)
qed

lemma parameter_loop_fails:
  "p \<in> set ps \<Longrightarrow> split_parameter p = Inl ValueError \<Longrightarrow>
     parameter_loop ps classes sig = Inl ValueError"
proof (induction ps arbitrary: sig)
  case Nil
  then show ?case by simp
next
  case (Cons q ps)
  show ?case
  proof (cases "annotate_parameter classes q")
    case (Inl e)
    then have "e = ValueError" by (simp add: annotate_parameter_Inl split_parameter_Inl)
    with Inl show ?thesis by simp
  next
    case (Inr f)
    with Cons.prems have "p \<in> set ps"
      by (auto simp flip: annotate_parameter_Inl [of classes])
    with Cons.IH Cons.prems(2) Inr show ?thesis by simp
  qed
qed

lemma get_function_annotations_fails:
  "p \<in> set (parameters_of m) \<Longrightarrow> split_parameter p = Inl ValueError \<Longrightarrow>
     get_function_annotations m classes lvl = Inl ValueError"
  by (simp add: get_function_annotations_def Let_def parameter_loop_fails)

lemma get_function_annotations_error:
  "get_function_annotations m classes lvl = Inl e \<Longrightarrow> e = ValueError"
  by (auto simp: get_function_annotations_def Let_def split: sum.splits
      dest: parameter_loop_error)

lemma process_line_error:
  "process_line classes line st = Inl e \<Longrightarrow> e = ValueError"
  by (cases st)
     (auto simp: process_line_def Let_def split: option.splits sum.splits
       dest: get_function_annotations_error)

lemma process_line_fails:
  "search FUNCTION_REGEX line = Some (pre, m, rest) \<Longrightarrow> p \<in> set (parameters_of m) \<Longrightarrow>
   split_parameter p = Inl ValueError \<Longrightarrow> process_line classes line st = Inl ValueError"
  by (cases st) (simp add: process_line_def Let_def get_function_annotations_fails)

lemma walk_fails:
  "line \<in> set lines \<Longrightarrow> (\<And>st. process_line classes line st = Inl ValueError) \<Longrightarrow>
     walk classes lines st = Inl ValueError"
proof (induction lines arbitrary: st)
  case Nil
  then show ?case by simp
next
  case (Cons l lines)
  show ?case
  proof (cases "process_line classes l st")
    case (Inl e)
    with process_line_error [OF Inl] show ?thesis by simp
  next
    case (Inr st')
    with Cons.prems(2) [of st] have "line \<noteq> l" by auto
    with Cons.prems(1) have "line \<in> set lines" by simp
    with Cons.IH Cons.prems(2) Inr show ?thesis by simp
  qed
qed

lemma process_line_unmatched:
  assumes "search FUNCTION_REGEX line = None" "search CLASS_REGEX line = None"
    "search VAR_REGEX line = None" "search ARRAY_REGEX line = None"
  shows "process_line classes line (out, lvl) = Inr (out, level_after line lvl)"
  using assms by (simp add: process_line_def level_after_def Let_def)

lemma split_no_separator: "c \<notin> set s \<Longrightarrow> split c s = [s]"
  by (induction s) auto

lemma set_replace_empty: "set (replace old [] s) \<subseteq> set s"
proof (induction old "[] :: string" s rule: replace.induct)
  case (1 old)
  then show ?case by simp
next
  case (2 old x xs)
  have "set (drop (length old) (x # xs)) \<subseteq> set (x # xs)" by (rule set_drop_subset)
  with 2 show ?case by auto
qed

lemma function_match_one_parameter:
  assumes "search FUNCTION_REGEX line = Some (pre, m, rest)"
  shows "length (parameters_of m) = 1"
proof -
  from function_parameters_no_comma [OF assms] set_replace_empty
  have "CHR '','' \<notin> set (replace '')'' [] (replace ''('' [] (group_at m 3)))"
    by blast
  then show ?thesis by (simp add: parameters_of_def split_no_separator)
qed


section \<open>Properties of the destination path\<close>

lemma results_file_suffix:
  "results FILE_SUFFIX_REGEX s =
     (if prefix ''.cpp'' s then [([Some ''pp''], drop 4 s), ([None], drop 2 s)]
      else if prefix ''.c'' s then [([None], drop 2 s)]
      else [])"
  by (simp add: FILE_SUFFIX_REGEX_def lit_def prefix_Cons split: list.splits)

lemma file_suffix_match_shorter:
  assumes "search FILE_SUFFIX_REGEX s = Some (pre, gs, rest)"
  shows "length rest < length s"
proof -
  from search_in_results [OF assms] obtain t where
    t: "s = pre @ t" "(gs, rest) \<in> set (results FILE_SUFFIX_REGEX t)" by blast
  from t(2) have "length rest < length t"
    by (auto simp: results_file_suffix prefix_def split: if_splits)
  with t(1) show ?thesis by simp
qed

lemma sub_file_suffix_skip:
  assumes "\<not> prefix ''.c'' (x # xs)"
  shows "sub FILE_SUFFIX_REGEX repl (x # xs) = x # sub FILE_SUFFIX_REGEX repl xs"
proof -
  from assms have np: "\<not> prefix ''.cpp'' (x # xs)" by (auto simp: prefix_def)
  with assms have r: "results FILE_SUFFIX_REGEX (x # xs) = []"
    by (simp only: results_file_suffix if_False)
  show ?thesis
  proof (cases "search FILE_SUFFIX_REGEX xs")
    case None
    with r show ?thesis
      by (simp add: sub.simps [of _ _ "x # xs"] sub.simps [of _ _ xs])
  next
    case (Some a)
    obtain pre gs rest where a: "a = (pre, gs, rest)" by (cases a)
    from file_suffix_match_shorter Some a have "length rest < length xs" by blast
    with r Some a show ?thesis
      by (simp add: sub.simps [of _ _ "x # xs"] sub.simps [of _ _ xs])
  qed
qed

lemma search_at_head:
  "results r s = (gs, rest) # more \<Longrightarrow> search r s = Some ([], gs, rest)"
  by (cases s) simp_all

lemma sub_file_suffix_cpp:
  assumes "prefix ''.cpp'' s"
  shows "sub FILE_SUFFIX_REGEX repl s = repl @ sub FILE_SUFFIX_REGEX repl (drop 4 s)"
proof -
  from assms have len: "length (drop 4 s) < length s" by (auto simp: prefix_def)
  from assms have "results FILE_SUFFIX_REGEX s = [([Some ''pp''], drop 4 s), ([None], drop 2 s)]"
    by (simp only: results_file_suffix if_True)
  then have "search FILE_SUFFIX_REGEX s = Some ([], [Some ''pp''], drop 4 s)"
    by (rule search_at_head)
  with len show ?thesis by (subst sub.simps) simp
qed

lemma sub_file_suffix_c:
  assumes "prefix ''.c'' s" and "\<not> prefix ''.cpp'' s"
  shows "sub FILE_SUFFIX_REGEX repl s = repl @ sub FILE_SUFFIX_REGEX repl (drop 2 s)"
proof -
  from assms have len: "length (drop 2 s) < length s" by (auto simp: prefix_def)
  from assms have "results FILE_SUFFIX_REGEX s = [([None], drop 2 s)]"
    by (simp only: results_file_suffix if_True if_False)
  then have "search FILE_SUFFIX_REGEX s = Some ([], [None], drop 2 s)"
    by (rule search_at_head)
  with len show ?thesis by (subst sub.simps) simp
qed

lemma sub_file_suffix: "sub FILE_SUFFIX_REGEX ''.pyi'' s = dot_c_replaced s"
proof (induction s rule: dot_c_replaced.induct)
  case 1
  have "search FILE_SUFFIX_REGEX [] = None" by (simp add: results_file_suffix)
  then show ?case by (subst sub.simps) (simp add: dot_c_replaced.simps(1))
next
  case (2 x xs)
  show ?case
  proof (cases "prefix ''.cpp'' (x # xs)")
    case True
    then have "dot_c_replaced (x # xs) = ''.pyi'' @ dot_c_replaced (drop 4 (x # xs))"
      by (simp only: dot_c_replaced.simps if_True)
    with 2(1) [OF True] sub_file_suffix_cpp [OF True, of "''.pyi''"] show ?thesis
      by (simp only:)
  next
    case ncpp: False
    show ?thesis
    proof (cases "prefix ''.c'' (x # xs)")
      case True
      with ncpp have "dot_c_replaced (x # xs) = ''.pyi'' @ dot_c_replaced (drop 2 (x # xs))"
        by (simp only: dot_c_replaced.simps if_True if_False)
      with 2(2) [OF ncpp True] sub_file_suffix_c [OF True ncpp, of "''.pyi''"] show ?thesis
        by (simp only:)
    next
      case False
      with ncpp have "dot_c_replaced (x # xs) = x # dot_c_replaced xs"
        by (simp only: dot_c_replaced.simps if_False)
      with 2(3) [OF ncpp False] sub_file_suffix_skip [OF False, of "''.pyi''"] show ?thesis
        by (simp only:)
    qed
  qed
qed

lemma dot_c_replaced_skip:
  "\<not> prefix ''.c'' s \<Longrightarrow> s = x # xs \<Longrightarrow> dot_c_replaced s = x # dot_c_replaced xs"
proof -
  assume a: "\<not> prefix ''.c'' s" and s: "s = x # xs"
  from a have "\<not> prefix ''.cpp'' s" by (auto simp: prefix_def)
  with a s show ?thesis by (simp only: dot_c_replaced.simps if_False)
qed

lemma no_dot_c_append:
  assumes "\<not> sublist ''.c'' (x # xs)" and "t = ''.c'' \<or> t = ''.cpp''"
  shows "\<not> prefix ''.c'' (x # xs @ t)"
proof
  assume p: "prefix ''.c'' (x # xs @ t)"
  show False
  proof (cases xs)
    case Nil
    with p assms(2) show False by (auto simp: prefix_Cons)
  next
    case (Cons y ys)
    with p have "prefix ''.c'' (x # xs)" by (simp add: prefix_Cons)
    with assms(1) show False using prefix_imp_sublist by blast
  qed
qed

lemma dot_c_replaced_stem:
  "\<not> sublist ''.c'' stem \<Longrightarrow>
     dot_c_replaced (stem @ ''.c'') = stem @ ''.pyi''
     \<and> dot_c_replaced (stem @ ''.cpp'') = stem @ ''.pyi''
     \<and> dot_c_replaced stem = stem"
proof (induction stem)
  case Nil
  have "dot_c_replaced ''.c'' = ''.pyi''" "dot_c_replaced ''.cpp'' = ''.pyi''"
    "dot_c_replaced [] = []"
    by code_simp+
  then show ?case by (simp only: append_Nil simp_thms)
next
  case (Cons x xs)
  from Cons.prems have n0: "\<not> prefix ''.c'' (x # xs)"
    using prefix_imp_sublist by blast
  from Cons.prems have nx: "\<not> sublist ''.c'' xs"
    by (simp add: sublist_Cons_right)
  note ih = Cons.IH [OF nx]
  have a1: "\<not> prefix ''.c'' (x # xs @ ''.c'')"
    by (rule no_dot_c_append [OF Cons.prems]) (rule disjI1, rule refl)
  have a2: "\<not> prefix ''.c'' (x # xs @ ''.cpp'')"
    by (rule no_dot_c_append [OF Cons.prems]) (rule disjI2, rule refl)
  have 1: "dot_c_replaced (x # xs @ ''.c'') = x # dot_c_replaced (xs @ ''.c'')"
    by (rule dot_c_replaced_skip [OF a1 refl])
  have 2: "dot_c_replaced (x # xs @ ''.cpp'') = x # dot_c_replaced (xs @ ''.cpp'')"
    by (rule dot_c_replaced_skip [OF a2 refl])
  have 3: "dot_c_replaced (x # xs) = x # dot_c_replaced xs"
    by (rule dot_c_replaced_skip [OF n0 refl])
  from ih show ?case unfolding append_Cons 1 2 3 by simp
qed

section \<open>The type resolver: properties\<close>

text \<open>
  Claim C3.  For every token and every list of known classes, \<open>_get_name\<close> returns
  the mapped name when the token is one of the twelve keys of the table (\<open>void\<close>
  as \<open>None\<close>, \<open>char\<close> and \<open>wchar_t\<close> as \<open>str\<close>, the integer tokens as \<open>int\<close>, \<open>float\<close> and
  \<open>double\<close> as \<open>float\<close>, \<open>bool\<close> as \<open>bool\<close>); otherwise the token itself when it is a
  known class; otherwise \<open>typing.Any\<close>.  It is a total function: no input raises.
\<close>

theorem get_name_resolves:
  "get_name string classes =
     (if string = ''void'' then ''None''
      else if string = ''bool'' then ''bool''
      else if string \<in> {''char'', ''wchar_t''} then ''str''
      else if string \<in> {''short'', ''int'', ''long'', ''__int64'', ''size_t'', ''ssize_t''}
        then ''int''
      else if string \<in> {''float'', ''double''} then ''float''
      else if string \<in> set classes then string
      else ''typing.Any'')"
  by (simp add: get_name_def CTYPES_CONVERSIONS_def)

theorem get_name_resolves_witness:
  "get_name ''void'' [''void''] = ''None'' \<and> get_name ''wchar_t'' [] = ''str''
   \<and> get_name ''Human'' [''Dog'', ''Human''] = ''Human''
   \<and> get_name ''Human'' [''Dog''] = ''typing.Any''"
  using get_name_resolves [of "''void''" "[''void'']"] get_name_resolves [of "''wchar_t''" "[]"]
    get_name_resolves [of "''Human''" "[''Dog'', ''Human'']"]
    get_name_resolves [of "''Human''" "[''Dog'']"]
  by simp

section \<open>Indentation\<close>

text \<open>
  Claim C6.  After the four pattern checks of a line, the indentation counter is
  unchanged when the line matched the function pattern, whatever braces it has;
  otherwise a line containing \<open>{\<close> adds 4 to it, and a line containing \<open>}\<close> then
  takes 4 off it only when it is at least 4.  The counter starts at 0, and after
  any number of lines of any source it is not negative.
\<close>

theorem indentation_counter:
  "(process_line classes line (out, lvl) = Inr (out', lvl') \<longrightarrow>
      lvl' = (if search FUNCTION_REGEX line \<noteq> None then lvl
              else (let l1 = (if CHR ''{'' \<in> set line then lvl + 4 else lvl)
                    in if CHR ''}'' \<in> set line \<and> 4 \<le> l1 then l1 - 4 else l1)))
   \<and> (walk classes (take n (split CHR 0x0A code)) (BASE_STRING, 0) = Inr (out2, lvl2) \<longrightarrow>
      0 \<le> lvl2)"
  using process_line_level [of classes line out lvl out' lvl']
    walk_level_nonneg [of classes "take n (split CHR 0x0A code)" BASE_STRING 0 out2 lvl2]
  by (simp add: level_after_def)

theorem indentation_counter_witness:
  "process_line [] ''}'' ([], 0) = Inr ([], 0)
   \<and> process_line [] ''int f(int x) {'' ([], 0)
       = Inr (''def f(x: int) -> typing.Any: ...'' @ NL @ NL, 0)
   \<and> walk [] (take 3 (split CHR 0x0A (''{'' @ NL @ ''{ }'' @ NL @ ''{'' @ NL @ ''}'')))
        (BASE_STRING, 0) = Inr (BASE_STRING, 8)
   \<and> (0 :: int) \<le> 8"
proof -
  have h1: "process_line [] ''}'' ([], 0) = Inr ([], 0)" by code_simp
  have h2: "process_line [] ''int f(int x) {'' ([], 0)
       = Inr (''def f(x: int) -> typing.Any: ...'' @ NL @ NL, 0)" by code_simp
  have h3: "walk [] (take 3 (split CHR 0x0A (''{'' @ NL @ ''{ }'' @ NL @ ''{'' @ NL @ ''}'')))
        (BASE_STRING, 0) = Inr (BASE_STRING, 8)" by code_simp
  from indentation_counter [of "[]" "''}''" "[]" 0 "[]" 0 3
      "''{'' @ NL @ ''{ }'' @ NL @ ''{'' @ NL @ ''}''" BASE_STRING 8] h1 h2 h3
  show ?thesis by simp
qed



section \<open>Arrays\<close>



section \<open>Failures\<close>

text \<open>
  Claim C9.  When a line of the source matches the function pattern and one of its
  comma-separated parameters, trimmed, does not split at blanks into exactly a type
  and a name, the walk ends with \<open>ValueError\<close> for the whole file, and so does
  \<open>generate_stubs\<close>: the line is not skipped.  A line that matches none of the four
  patterns raises nothing and appends nothing.
\<close>

theorem malformed_parameter_aborts:
  "(line \<in> set (split CHR 0x0A code) \<and> search FUNCTION_REGEX line = Some (pre, m, rest)
      \<and> p \<in> set (parameters_of m)
      \<and> length (split CHR '' '' (replace ''  '' '' '' (strip p))) \<noteq> 2
      \<and> files path = Some code
    \<longrightarrow> stubs_text code = Inl ValueError
        \<and> generate_stubs files path = (files, Inl ValueError))
   \<and> (search FUNCTION_REGEX l = None \<and> search CLASS_REGEX l = None
      \<and> search VAR_REGEX l = None \<and> search ARRAY_REGEX l = None
    \<longrightarrow> (\<exists>lvl'. process_line classes l (out, lvl) = Inr (out, lvl')))"
proof (intro conjI impI)
  assume a: "line \<in> set (split CHR 0x0A code) \<and> search FUNCTION_REGEX line = Some (pre, m, rest)
      \<and> p \<in> set (parameters_of m)
      \<and> length (split CHR '' '' (replace ''  '' '' '' (strip p))) \<noteq> 2
      \<and> files path = Some code"
  then have sp: "split_parameter p = Inl ValueError" by (simp add: split_parameter_Inl)
  with a have "\<And>st. process_line (findall GET_CLASSES_REGEX code) line st = Inl ValueError"
    using process_line_fails by blast
  with a have "walk (findall GET_CLASSES_REGEX code) (split CHR 0x0A code) (BASE_STRING, 0)
      = Inl ValueError"
    using walk_fails by blast
  then show t: "stubs_text code = Inl ValueError" by (simp add: stubs_text_def)
  with a show "generate_stubs files path = (files, Inl ValueError)"
    by (simp add: generate_stubs_def)
next
  assume "search FUNCTION_REGEX l = None \<and> search CLASS_REGEX l = None
      \<and> search VAR_REGEX l = None \<and> search ARRAY_REGEX l = None"
  then show "\<exists>lvl'. process_line classes l (out, lvl) = Inr (out, lvl')"
    using process_line_unmatched by blast
qed

theorem malformed_parameter_aborts_witness:
  "''void f(void)'' \<in> set (split CHR 0x0A (''int n;'' @ NL @ ''void f(void)''))
   \<and> search FUNCTION_REGEX ''void f(void)'' = Some ([], [Some ''void'', Some ''f'', Some ''(void)''], [])
   \<and> ''void'' \<in> set (parameters_of [Some ''void'', Some ''f'', Some ''(void)''])
   \<and> length (split CHR '' '' (replace ''  '' '' '' (strip ''void''))) \<noteq> 2
   \<and> [''a.cpp'' \<mapsto> ''int n;'' @ NL @ ''void f(void)''] ''a.cpp''
        = Some (''int n;'' @ NL @ ''void f(void)'')
   \<and> stubs_text (''int n;'' @ NL @ ''void f(void)'') = Inl ValueError
   \<and> generate_stubs [''a.cpp'' \<mapsto> ''int n;'' @ NL @ ''void f(void)''] ''a.cpp''
        = ([''a.cpp'' \<mapsto> ''int n;'' @ NL @ ''void f(void)''], Inl ValueError)
   \<and> search FUNCTION_REGEX ''// hi {'' = None \<and> search CLASS_REGEX ''// hi {'' = None
   \<and> search VAR_REGEX ''// hi {'' = None \<and> search ARRAY_REGEX ''// hi {'' = None
   \<and> (\<exists>lvl'. process_line [] ''// hi {'' (''x'', 0) = Inr (''x'', lvl'))"
proof -
  have h1: "''void f(void)'' \<in> set (split CHR 0x0A (''int n;'' @ NL @ ''void f(void)''))"
    by simp
  have h2: "search FUNCTION_REGEX ''void f(void)''
      = Some ([], [Some ''void'', Some ''f'', Some ''(void)''], [])"
    by code_simp
  have h3: "''void'' \<in> set (parameters_of [Some ''void'', Some ''f'', Some ''(void)''])"
    by code_simp
  have h4: "length (split CHR '' '' (replace ''  '' '' '' (strip ''void''))) \<noteq> 2"
    by code_simp
  have h5: "[''a.cpp'' \<mapsto> ''int n;'' @ NL @ ''void f(void)''] ''a.cpp''
        = Some (''int n;'' @ NL @ ''void f(void)'')"
    by simp
  have h6: "search FUNCTION_REGEX ''// hi {'' = None" "search CLASS_REGEX ''// hi {'' = None"
    "search VAR_REGEX ''// hi {'' = None" "search ARRAY_REGEX ''// hi {'' = None"
    by code_simp+
  from malformed_parameter_aborts [of "''void f(void)''" "''int n;'' @ NL @ ''void f(void)''"
      "[]" "[Some ''void'', Some ''f'', Some ''(void)'']" "[]" "''void''"
      "[''a.cpp'' \<mapsto> ''int n;'' @ NL @ ''void f(void)'']" "''a.cpp''" "''// hi {''" "[]" "''x''" 0]
    h1 h2 h3 h4 h5 h6
  show ?thesis by (simp del: search.simps split.simps replace.simps)
qed

text \<open>
  Claim C10.  When the walk over the lines ends with an error, \<open>generate_stubs\<close>
  leaves every file as it was, the destination included: the text is built in
  memory and written once, after the walk.  More generally no call that ends with
  an error changes a file.
\<close>

theorem failure_writes_nothing:
  "(files path = Some code
      \<and> walk (findall GET_CLASSES_REGEX code) (split CHR 0x0A code) (BASE_STRING, 0) = Inl e
    \<longrightarrow> generate_stubs files path = (files, Inl e))
   \<and> (snd (generate_stubs files path) = Inl e' \<longrightarrow> fst (generate_stubs files path) = files)"
  by (auto simp: generate_stubs_def stubs_text_def split: option.splits sum.splits)

theorem failure_writes_nothing_witness:
  "[''a.cpp'' \<mapsto> ''void f(void)'', ''a.pyi'' \<mapsto> ''old''] ''a.cpp'' = Some ''void f(void)''
   \<and> walk (findall GET_CLASSES_REGEX ''void f(void)'') (split CHR 0x0A ''void f(void)'')
        (BASE_STRING, 0) = Inl ValueError
   \<and> generate_stubs [''a.cpp'' \<mapsto> ''void f(void)'', ''a.pyi'' \<mapsto> ''old''] ''a.cpp''
       = ([''a.cpp'' \<mapsto> ''void f(void)'', ''a.pyi'' \<mapsto> ''old''], Inl ValueError)
   \<and> stubs_path ''a.cpp'' = ''a.pyi''"
proof -
  have h1: "[''a.cpp'' \<mapsto> ''void f(void)'', ''a.pyi'' \<mapsto> ''old''] ''a.cpp'' = Some ''void f(void)''"
    by simp
  have h2: "walk (findall GET_CLASSES_REGEX ''void f(void)'') (split CHR 0x0A ''void f(void)'')
        (BASE_STRING, 0) = Inl ValueError"
    by code_simp
  have h3: "stubs_path ''a.cpp'' = ''a.pyi''" by code_simp
  from failure_writes_nothing [of "[''a.cpp'' \<mapsto> ''void f(void)'', ''a.pyi'' \<mapsto> ''old'']"
      "''a.cpp''" "''void f(void)''" ValueError ValueError] h1 h2 h3
  show ?thesis by (simp del: walk.simps findall.simps split.simps)
qed

section \<open>Function stubs\<close>



text \<open>
  Claim C1 says that the line \<open>int hello(Human human)\<close>, with \<open>Human\<close> a known
  class, appends \<open>def hello(human: Human) -> int: ...\<close> and a blank line and leaves
  the level as it was.  The code appends that line with \<open>typing.Any\<close> in place of
  \<open>int\<close>: \<open>lstrip('unsigned ')\<close> takes the leading \<open>i\<close> and \<open>n\<close> off the return type
  before it is resolved.  The level is left as it was.
\<close>

theorem hello_stub_return_type:
  "findall GET_CLASSES_REGEX (''class Human {'' @ NL @ ''};'' @ NL @ ''int hello(Human human)'')
     = [''Human'']
   \<and> process_line [''Human''] ''int hello(Human human)'' (BASE_STRING, 0)
     = Inr (BASE_STRING @ ''def hello(human: Human) -> typing.Any: ...'' @ NL @ NL, 0)
   \<and> stubs_text (''class Human {'' @ NL @ ''};'' @ NL @ ''int hello(Human human)'')
     = Inr (BASE_STRING @ ''class Human:'' @ NL @ ''    ...'' @ NL
            @ ''def hello(human: Human) -> typing.Any: ...'' @ NL @ NL)"
  by code_simp

text \<open>
  Claim C2 says that the return type is resolved after taking off one leading \<open>*\<close>,
  one prefix \<open>unsigned \<close> and one prefix \<open>long \<close>, so that \<open>int\<close> reaches the resolver
  unchanged.  The code calls \<open>lstrip\<close>, which takes off every leading character that
  occurs in its argument: \<open>int\<close> reaches the resolver as \<open>t\<close> and \<open>double\<close> as \<open>uble\<close>,
  while the same tokens as parameter types resolve to \<open>int\<close> and \<open>float\<close>.
\<close>

theorem return_type_stripping:
  "lstrip ''long '' (lstrip ''unsigned '' (lstrip ''*'' ''int'')) = ''t''
   \<and> map_option (\<lambda>(pre, m, rest). get_function_annotations m [] 0)
        (search FUNCTION_REGEX ''int twice(int x)'')
     = Some (Inr (''def twice(x: int) -> typing.Any: ...'' @ NL @ NL))
   \<and> map_option (\<lambda>(pre, m, rest). get_function_annotations m [] 0)
        (search FUNCTION_REGEX ''double half(double x)'')
     = Some (Inr (''def half(x: float) -> typing.Any: ...'' @ NL @ NL))"
  by code_simp

section \<open>The destination path\<close>

text \<open>
  Claim C4 says that the destination path is the input path with its trailing
  \<open>.c\<close> or \<open>.cpp\<close> replaced by \<open>.pyi\<close>, by one substitution.  \<open>Pattern.sub\<close> is called
  once but replaces every match, so \<open>a.c/b.cpp\<close> becomes \<open>a.pyi/b.pyi\<close>:
\<close>

theorem stubs_path_trailing_only_counterexample:
  "stubs_path ''a.c/b.cpp'' = ''a.pyi/b.pyi''
   \<and> replace_trailing_suffix ''a.c/b.cpp'' = ''a.c/b.pyi''
   \<and> stubs_path ''a.c/b.cpp'' \<noteq> replace_trailing_suffix ''a.c/b.cpp''"
  by code_simp

text \<open>
  Claim C4, amended.  The destination path is the input path with every occurrence
  of \<open>.cpp\<close> or \<open>.c\<close>, taken from left to right without overlap and \<open>.cpp\<close> where both
  fit, replaced by \<open>.pyi\<close>.  So a path \<open>stem.c\<close> or \<open>stem.cpp\<close> whose stem contains no
  \<open>.c\<close> becomes \<open>stem.pyi\<close>, and a path that contains no \<open>.c\<close> is its own destination.
\<close>

theorem stubs_path_replaces_every_match:
  "stubs_path path = dot_c_replaced path
   \<and> (\<not> sublist ''.c'' stem \<longrightarrow>
        stubs_path (stem @ ''.c'') = stem @ ''.pyi''
        \<and> stubs_path (stem @ ''.cpp'') = stem @ ''.pyi''
        \<and> stubs_path stem = stem)"
  using dot_c_replaced_stem [of stem] by (simp add: stubs_path_def sub_file_suffix)

theorem stubs_path_replaces_every_match_witness:
  "\<not> sublist ''.c'' ''src/main''
   \<and> stubs_path ''src/main.c'' = ''src/main.pyi''
   \<and> stubs_path ''src/main.cpp'' = ''src/main.pyi''
   \<and> stubs_path ''src/main'' = ''src/main''
   \<and> dot_c_replaced ''x.cc'' = ''x.pyic''"
proof -
  have h: "\<not> sublist ''.c'' ''src/main''" by code_simp
  have e: "dot_c_replaced ''x.cc'' = ''x.pyic''" by code_simp
  have "\<not> sublist ''.c'' ''src/main'' \<longrightarrow>
        stubs_path (''src/main'' @ ''.c'') = ''src/main'' @ ''.pyi''
        \<and> stubs_path (''src/main'' @ ''.cpp'') = ''src/main'' @ ''.pyi''
        \<and> stubs_path ''src/main'' = ''src/main''"
    using stubs_path_replaces_every_match [of "''src/main''" "''src/main''"]
    by (rule conjunct2)
  from this h have "stubs_path (''src/main'' @ ''.c'') = ''src/main'' @ ''.pyi''
        \<and> stubs_path (''src/main'' @ ''.cpp'') = ''src/main'' @ ''.pyi''
        \<and> stubs_path ''src/main'' = ''src/main''"
    by (rule mp)
  then have "stubs_path ''src/main.c'' = ''src/main.pyi''
        \<and> stubs_path ''src/main.cpp'' = ''src/main.pyi''
        \<and> stubs_path ''src/main'' = ''src/main''"
    by (simp only: append.simps)
  with h e show ?thesis by (simp only: simp_thms)
qed

end
